theory Spec2Isabelle
  imports Main
begin

section \<open>Characters and strings\<close>

text \<open>
  A Python \<open>str\<close> is a sequence of code points. The model uses \<^typ>\<open>string\<close>, whose
  characters are the code points U+0000 to U+00FF; on that range the functions below are
  what \<open>str.isspace\<close>, the \<open>re\<close> module's case folding and \<open>str.strip\<close> compute.
  The \<open>re\<close> module folds case character by character: \<open>lower\<close> is its folding, and
  \<open>other_case\<close> gives the one character, if any, that folds to the same character. Three
  letters of the range have no such partner in it: the upper case of U+00B5 and of U+00FF
  lies beyond U+00FF, and U+00DF has no upper case of one character.
\<close>

definition ord :: "char \<Rightarrow> nat" where
  "ord c = of_char c"

definition chr :: "nat \<Rightarrow> char" where
  "chr n = char_of n"

definition newline :: char where
  "newline = CHR 0x0A"

text \<open>\<open>str.isspace\<close> on one character: TAB, LF, VT, FF, CR, FS, GS, RS, US, SPACE, NEL, NBSP.\<close>

definition isspace :: "char \<Rightarrow> bool" where
  "isspace c = (c \<in> set [CHR 0x09, CHR 0x0A, CHR 0x0B, CHR 0x0C, CHR 0x0D, CHR 0x1C,
                          CHR 0x1D, CHR 0x1E, CHR 0x1F, CHR 0x20, CHR 0x85, CHR 0xA0])"

text \<open>Letters with an upper/lower partner in range: A-Z, and U+00C0..U+00DE without U+00D7.\<close>

definition isupper :: "char \<Rightarrow> bool" where
  "isupper c = ((65 \<le> ord c \<and> ord c \<le> 90) \<or> (192 \<le> ord c \<and> ord c \<le> 222 \<and> ord c \<noteq> 215))"

definition islower :: "char \<Rightarrow> bool" where
  "islower c = ((97 \<le> ord c \<and> ord c \<le> 122) \<or> (224 \<le> ord c \<and> ord c \<le> 254 \<and> ord c \<noteq> 247))"

definition lower :: "char \<Rightarrow> char" where
  "lower c = (if isupper c then chr (ord c + 32) else c)"

definition upper :: "char \<Rightarrow> char" where
  "upper c = (if islower c then chr (ord c - 32) else c)"

definition other_case :: "char \<Rightarrow> char" where
  "other_case c = (if isupper c then lower c else upper c)"

text \<open>\<open>s.strip()\<close>: leading and trailing whitespace removed.\<close>

definition strip :: "string \<Rightarrow> string" where
  "strip s = rev (dropWhile isspace (rev (dropWhile isspace s)))"

text \<open>\<open>s.split(sep)\<close> for a one-character separator: never the empty list.\<close>

fun str_split :: "char \<Rightarrow> string \<Rightarrow> string list" where
  "str_split sep [] = [[]]"
| "str_split sep (c # cs) =
     (if c = sep then [] # str_split sep cs
      else (case str_split sep cs of
              part # parts \<Rightarrow> (c # part) # parts
            | [] \<Rightarrow> [[c]]))"

text \<open>\<open>enumerate(xs, start)\<close>.\<close>

fun enumerate_from :: "int \<Rightarrow> 'a list \<Rightarrow> (int \<times> 'a) list" where
  "enumerate_from n [] = []"
| "enumerate_from n (x # xs) = (n, x) # enumerate_from (n + 1) xs"

section \<open>Compiled patterns\<close>

text \<open>
  \<open>re.compile(pattern, re.IGNORECASE | re.MULTILINE)\<close> yields a matcher. The model holds
  the parsed pattern, for the constructs the built-in rules use: literal text, character
  sets, \<open>.\<close>, \<open>\s\<close>, greedy repetition of a one-character item (\<open>*\<close>, \<open>?\<close>, \<open>{n,}\<close>),
  concatenation and alternation. Groups capture only; no pattern has a back-reference, so a
  group is its body. The patterns have no \<open>^\<close> or \<open>$\<close>, so \<open>MULTILINE\<close> changes nothing.
  \<open>IGNORECASE\<close> is part of every comparison of a pattern character with a text character.
\<close>

datatype set_item = Single char | Range char char

datatype atom = AnyChar | Whitespace | CharSet "set_item list"

datatype regex =
    Lit string
  | One atom
  | Repeat atom nat "nat option"
  | Seq regex regex
  | Alt regex regex

text \<open>
  A set under \<open>IGNORECASE\<close> holds the lower case of each of its members, and a character
  is looked up by its lower case: \<open>c\<close> is in the range when \<open>c\<close> or its other case is.
\<close>

fun item_matches :: "set_item \<Rightarrow> char \<Rightarrow> bool" where
  "item_matches (Single p) c = (lower c = lower p)"
| "item_matches (Range lo hi) c =
     ((ord lo \<le> ord c \<and> ord c \<le> ord hi) \<or>
      (ord lo \<le> ord (other_case c) \<and> ord (other_case c) \<le> ord hi))"

fun atom_matches :: "atom \<Rightarrow> char \<Rightarrow> bool" where
  "atom_matches AnyChar c = (c \<noteq> newline)"
| "atom_matches Whitespace c = isspace c"
| "atom_matches (CharSet items) c = list_ex (\<lambda>i. item_matches i c) items"

text \<open>Literal text, compared character by character without regard to case.\<close>

fun lit_match :: "string \<Rightarrow> string \<Rightarrow> string option" where
  "lit_match [] s = Some s"
| "lit_match (p # ps) [] = None"
| "lit_match (p # ps) (c # cs) = (if lower c = lower p then lit_match ps cs else None)"

text \<open>The greedy run of a repetition: how many leading characters the item takes, at most \<open>hi\<close>.\<close>

fun count_run :: "atom \<Rightarrow> nat option \<Rightarrow> string \<Rightarrow> nat" where
  "count_run a hi [] = 0"
| "count_run a hi (c # cs) =
     (if hi = Some 0 \<or> \<not> atom_matches a c then 0
      else Suc (count_run a (map_option (\<lambda>h. h - 1) hi) cs))"

text \<open>
  The backtracking matcher, as the list of the texts left after each way the pattern can
  match at the start of \<open>s\<close>, in the order the engine tries them: the first alternative
  before the second, the longest repetition before the shorter ones.
\<close>

fun matches_from :: "regex \<Rightarrow> string \<Rightarrow> string list" where
  "matches_from (Lit p) s = (case lit_match p s of None \<Rightarrow> [] | Some t \<Rightarrow> [t])"
| "matches_from (One a) s =
     (case s of [] \<Rightarrow> [] | c # cs \<Rightarrow> if atom_matches a c then [cs] else [])"
| "matches_from (Repeat a lo hi) s = map (\<lambda>k. drop k s) (rev [lo ..< Suc (count_run a hi s)])"
| "matches_from (Seq r1 r2) s = concat (map (matches_from r2) (matches_from r1 s))"
| "matches_from (Alt r1 r2) s = matches_from r1 s @ matches_from r2 s"

text \<open>
  \<open>pattern.search\<close> from offset \<open>pos\<close>, where \<open>s\<close> is the text from \<open>pos\<close> on: the
  leftmost offset at which the pattern matches, with the end of the first match the engine
  finds there and the text after it. With \<open>must_advance\<close> an empty match at \<open>pos\<close> itself is
  refused.
\<close>

fun search :: "regex \<Rightarrow> string \<Rightarrow> nat \<Rightarrow> bool \<Rightarrow> (nat \<times> nat \<times> string) option" where
  "search r s pos must_advance =
     (case filter (\<lambda>t. \<not> must_advance \<or> length t < length s) (matches_from r s) of
        t # _ \<Rightarrow> Some (pos, pos + (length s - length t), t)
      | [] \<Rightarrow> (case s of [] \<Rightarrow> None | c # cs \<Rightarrow> search r cs (Suc pos) False))"

declare search.simps [simp del]

lemma lit_match_length: "lit_match p s = Some t \<Longrightarrow> length t \<le> length s"
  by (induction p s rule: lit_match.induct) (auto split: if_splits)

lemma matches_from_length: "t \<in> set (matches_from r s) \<Longrightarrow> length t \<le> length s"
proof (induction r arbitrary: s t)
  case (Lit p)
  then show ?case by (cases "lit_match p s") (auto dest: lit_match_length)
next
  case (One a)
  then show ?case by (auto split: list.splits if_splits)
next
  case (Repeat a lo hi)
  then show ?case by auto
next
  case (Seq r1 r2)
  then obtain u where "u \<in> set (matches_from r1 s)" "t \<in> set (matches_from r2 u)"
    by auto
  then show ?case using Seq.IH(1)[of u s] Seq.IH(2)[of t u] by simp
next
  case (Alt r1 r2)
  then show ?case by auto
qed

lemma filter_eq_ConsD: "filter P xs = y # ys \<Longrightarrow> y \<in> set xs \<and> P y"
  by (auto simp: filter_eq_Cons_iff)

lemma search_length:
  "search r s pos ma = Some (st, en, t) \<Longrightarrow>
     length t \<le> length s \<and> (ma \<or> st \<noteq> en \<longrightarrow> length t < length s)"
proof (induction s arbitrary: pos ma)
  case Nil
  show ?case
  proof (cases "filter (\<lambda>t. \<not> ma \<or> length t < length ([]::string)) (matches_from r [])")
    case Nil
    with Nil.prems show ?thesis by (simp add: search.simps)
  next
    case (Cons u us)
    from filter_eq_ConsD[OF Cons] have "u \<in> set (matches_from r [])" "\<not> ma"
      by simp_all
    moreover from Cons Nil.prems have "st = pos \<and> en = pos + (length ([]::string) - length u) \<and> t = u"
      by (auto simp: search.simps)
    ultimately show ?thesis using matches_from_length[of u r "[]"] by auto
  qed
next
  case (Cons c cs)
  show ?case
  proof (cases "filter (\<lambda>t. \<not> ma \<or> length t < length (c # cs)) (matches_from r (c # cs))")
    case Nil
    with Cons.prems have "search r cs (Suc pos) False = Some (st, en, t)"
      by (simp add: search.simps)
    from Cons.IH[OF this] show ?thesis by simp
  next
    case (Cons u us)
    from filter_eq_ConsD[OF Cons]
    have u: "u \<in> set (matches_from r (c # cs))" "\<not> ma \<or> length u < length (c # cs)"
      by auto
    from Cons Cons.prems have "st = pos \<and> en = pos + (length (c # cs) - length u) \<and> t = u"
      by (auto simp: search.simps)
    with u matches_from_length[OF u(1)] show ?thesis by auto
  qed
qed

text \<open>
  \<open>pattern.finditer(line)\<close>: the spans \<open>(start, end)\<close> of the successive matches. The next
  search begins where the last match ended, and must advance when that match was empty (the
  rule of Python 3.7 and later, where an empty match may follow a non-empty one directly).
\<close>

function finditer_from :: "regex \<Rightarrow> string \<Rightarrow> nat \<Rightarrow> bool \<Rightarrow> (nat \<times> nat) list" where
  "finditer_from r s pos must_advance =
     (case search r s pos must_advance of
        None \<Rightarrow> []
      | Some (st, en, t) \<Rightarrow> (st, en) # finditer_from r t en (st = en))"
  by pat_completeness auto
termination
  apply (relation "measures [\<lambda>(r, s, pos, ma). length s, \<lambda>(r, s, pos, ma). if ma then 0 else 1]")
   apply simp
  apply (auto dest: search_length)
  done

declare finditer_from.simps [simp del]

definition finditer :: "regex \<Rightarrow> string \<Rightarrow> (nat \<times> nat) list" where
  "finditer r line = finditer_from r line 0 False"

section \<open>Data model\<close>

datatype Severity = CRITICAL | HIGH | MEDIUM | LOW | INFO

fun Severity_value :: "Severity \<Rightarrow> string" where
  "Severity_value CRITICAL = ''critical''"
| "Severity_value HIGH = ''high''"
| "Severity_value MEDIUM = ''medium''"
| "Severity_value LOW = ''low''"
| "Severity_value INFO = ''info''"

datatype RuleCategory = PROMPT_INJECTION | SECRETS | PERMISSIONS | FILE_ACCESS | NETWORK | MEMORY

fun RuleCategory_value :: "RuleCategory \<Rightarrow> string" where
  "RuleCategory_value PROMPT_INJECTION = ''prompt_injection''"
| "RuleCategory_value SECRETS = ''secrets''"
| "RuleCategory_value PERMISSIONS = ''permissions''"
| "RuleCategory_value FILE_ACCESS = ''file_access''"
| "RuleCategory_value NETWORK = ''network''"
| "RuleCategory_value MEMORY = ''memory''"

record Finding =
  rule_id :: string
  rule_name :: string
  category :: RuleCategory
  severity :: Severity
  message :: string
  file_path :: string
  line_number :: int
  column :: int
  snippet :: string
  remediation :: string
  references :: "string list"

record ScanResult =
  file_path :: string
  findings :: "Finding list"
  scanned_at :: string
  duration_ms :: int

text \<open>
  The exceptions the scanner can meet. Each is a subclass of Python's \<open>Exception\<close>, so a
  handler \<open>except Exception\<close> catches every value of this type.
\<close>

datatype error =
    OSError | FileNotFoundError | IsADirectoryError | PermissionError | UnicodeDecodeError
  | UnicodeEncodeError | NotImplementedError | ValueError | KeyError | IndexError

section \<open>Rules\<close>

record Rule =
  rule_id :: string
  name :: string
  description :: string
  category :: RuleCategory
  severity :: Severity
  remediation :: string
  references :: "string list"

record PatternRule = Rule +
  pattern :: regex
  message_template :: string

text \<open>A rule object is an instance of the base class or of \<open>PatternRule\<close>.\<close>

datatype rule_object = RuleObject Rule | PatternRuleObject PatternRule

text \<open>
  \<open>template.format(category=value)\<close>, for templates made of text, the escapes \<open>{{\<close> and
  \<open>}}\<close>, and replacement fields that are a plain name. The field \<open>{category}\<close> is replaced
  by the value; an empty or numeric name indexes the empty positional arguments
  (\<open>IndexError\<close>); any other name is a missing keyword (\<open>KeyError\<close>); a lone brace is a
  \<open>ValueError\<close>. Fields with a conversion, a format specification, an attribute or an index
  are outside this fragment and are given as \<open>ValueError\<close>; no built-in rule has one.
\<close>

definition lookup_field :: "string \<Rightarrow> string \<Rightarrow> error + string" where
  "lookup_field v field_name =
     (if field_name = ''category'' then Inr v
      else if list_all (\<lambda>c. c \<in> set ''0123456789'') field_name then Inl IndexError
      else Inl KeyError)"

definition emit :: "string \<Rightarrow> error + string \<Rightarrow> error + string" where
  "emit out rest = (case rest of Inl e \<Rightarrow> Inl e | Inr t \<Rightarrow> Inr (out @ t))"

fun format_from :: "string \<Rightarrow> string option \<Rightarrow> string \<Rightarrow> error + string" where
  "format_from v None [] = Inr []"
| "format_from v (Some field) [] = Inl ValueError"
| "format_from v None (c # cs) =
     (if c = CHR ''{'' then
        (case cs of
           d # ds \<Rightarrow> if d = CHR ''{'' then emit ''{'' (format_from v None ds)
                     else format_from v (Some []) cs
         | [] \<Rightarrow> format_from v (Some []) cs)
      else if c = CHR ''}'' then
        (case cs of
           d # ds \<Rightarrow> if d = CHR ''}'' then emit ''}'' (format_from v None ds)
                     else Inl ValueError
         | [] \<Rightarrow> Inl ValueError)
      else emit [c] (format_from v None cs))"
| "format_from v (Some field) (c # cs) =
     (if c = CHR ''}'' then
        (case lookup_field v field of
           Inl e \<Rightarrow> Inl e
         | Inr x \<Rightarrow> emit x (format_from v None cs))
      else if c \<in> set ''{[.!:'' then Inl ValueError
      else format_from v (Some (field @ [c])) cs)"

definition str_format :: "string \<Rightarrow> string \<Rightarrow> error + string" where
  "str_format template v = format_from v None template"

text \<open>The \<open>Finding\<close> that \<open>PatternRule.check\<close> builds for one match on one line.\<close>

definition new_finding ::
  "PatternRule \<Rightarrow> string \<Rightarrow> int \<Rightarrow> string \<Rightarrow> nat \<times> nat \<Rightarrow> error + Finding" where
  "new_finding self path line_num line m =
     (case str_format (message_template self) (RuleCategory_value (Rule.category self)) of
        Inl e \<Rightarrow> Inl e
      | Inr msg \<Rightarrow> Inr
          \<lparr> Finding.rule_id = Rule.rule_id self,
            rule_name = name self,
            Finding.category = Rule.category self,
            Finding.severity = Rule.severity self,
            message = msg,
            Finding.file_path = path,
            line_number = line_num,
            column = int (fst m) + 1,
            snippet = take 100 (strip line),
            Finding.remediation = Rule.remediation self,
            Finding.references = Rule.references self \<rparr>)"

text \<open>The inner loop, over the matches of one line.\<close>

fun match_loop ::
  "PatternRule \<Rightarrow> string \<Rightarrow> int \<Rightarrow> string \<Rightarrow> (nat \<times> nat) list \<Rightarrow> error + Finding list" where
  "match_loop self path line_num line [] = Inr []"
| "match_loop self path line_num line (m # ms) =
     (case new_finding self path line_num line m of
        Inl e \<Rightarrow> Inl e
      | Inr f \<Rightarrow>
          (case match_loop self path line_num line ms of
             Inl e \<Rightarrow> Inl e
           | Inr fs \<Rightarrow> Inr (f # fs)))"

text \<open>The outer loop, over the numbered lines.\<close>

fun line_loop :: "PatternRule \<Rightarrow> string \<Rightarrow> (int \<times> string) list \<Rightarrow> error + Finding list" where
  "line_loop self path [] = Inr []"
| "line_loop self path ((line_num, line) # rest) =
     (case match_loop self path line_num line (finditer (pattern self) line) of
        Inl e \<Rightarrow> Inl e
      | Inr fs \<Rightarrow>
          (case line_loop self path rest of
             Inl e \<Rightarrow> Inl e
           | Inr gs \<Rightarrow> Inr (fs @ gs)))"

definition PatternRule_check :: "PatternRule \<Rightarrow> string \<Rightarrow> string \<Rightarrow> error + Finding list" where
  "PatternRule_check self content path =
     line_loop self path (enumerate_from 1 (str_split newline content))"

text \<open>\<open>rule.check\<close>, by the class of the rule: the base class raises.\<close>

fun check :: "rule_object \<Rightarrow> string \<Rightarrow> string \<Rightarrow> error + Finding list" where
  "check (RuleObject self) content path = Inl NotImplementedError"
| "check (PatternRuleObject self) content path = PatternRule_check self content path"

section \<open>The built-in rules\<close>

fun seqs :: "regex list \<Rightarrow> regex" where
  "seqs [] = Lit []"
| "seqs [r] = r"
| "seqs (r # rs) = Seq r (seqs rs)"

fun alts :: "regex list \<Rightarrow> regex" where
  "alts [] = One (CharSet [])"
| "alts [r] = r"
| "alts (r # rs) = Alt r (alts rs)"

definition spaces :: regex where
  "spaces = Repeat Whitespace 0 None"

definition assign :: regex where
  "assign = One (CharSet [Single (CHR ''=''), Single (CHR '':'')])"

definition quote :: regex where
  "quote = One (CharSet [Single (CHR 0x22), Single (CHR 0x27)])"

text \<open>\<^verbatim>\<open>(system_prompt|system|prompt)\s*[=:]\s*["\'].*(\{user_input|\{input|\{\{|%s|%d|\$\{)\<close>\<close>

definition AG001_pattern :: regex where
  "AG001_pattern = seqs
     [alts [Lit ''system_prompt'', Lit ''system'', Lit ''prompt''],
      spaces, assign, spaces, quote,
      Repeat AnyChar 0 None,
      alts [Lit ''{user_input'', Lit ''{input'', Lit ''{{'', Lit ''%s'', Lit ''%d'', Lit ''${'']]"

text \<open>\<^verbatim>\<open>(api[_-]?key|apikey|token|secret|password)\s*[=:]\s*["\'][a-zA-Z0-9_-]{20,}["\']\<close>\<close>

definition AG002_pattern :: regex where
  "AG002_pattern = seqs
     [alts [seqs [Lit ''api'',
                  Repeat (CharSet [Single (CHR ''_''), Single (CHR ''-'')]) 0 (Some 1),
                  Lit ''key''],
            Lit ''apikey'', Lit ''token'', Lit ''secret'', Lit ''password''],
      spaces, assign, spaces, quote,
      Repeat (CharSet [Range (CHR ''a'') (CHR ''z''), Range (CHR ''A'') (CHR ''Z''),
                       Range (CHR ''0'') (CHR ''9''), Single (CHR ''_''), Single (CHR ''-'')])
             20 None,
      quote]"

text \<open>\<^verbatim>\<open>(allow_all|unrestricted|bypass.*auth|disable.*check)\<close>\<close>

definition AG003_pattern :: regex where
  "AG003_pattern = alts
     [Lit ''allow_all'', Lit ''unrestricted'',
      seqs [Lit ''bypass'', Repeat AnyChar 0 None, Lit ''auth''],
      seqs [Lit ''disable'', Repeat AnyChar 0 None, Lit ''check'']]"

text \<open>\<^verbatim>\<open>(read_file|write_file|delete_file)\s*[=:]\s*True|allow_all_files|bypass_path_validation\<close>\<close>

definition AG004_pattern :: regex where
  "AG004_pattern = alts
     [seqs [alts [Lit ''read_file'', Lit ''write_file'', Lit ''delete_file''],
            spaces, assign, spaces, Lit ''True''],
      Lit ''allow_all_files'', Lit ''bypass_path_validation'']"

text \<open>\<^verbatim>\<open>(http://|https://|fetch\(|requests\.|urllib)\<close>\<close>

definition AG005_pattern :: regex where
  "AG005_pattern = alts
     [Lit ''http://'', Lit ''https://'', Lit ''fetch('', Lit ''requests.'', Lit ''urllib'']"

definition AG001 :: PatternRule where
  "AG001 =
     \<lparr> rule_id = ''AG-001'',
       name = ''Prompt Injection Vector'',
       description = ''User input is being directly concatenated into system prompts without sanitization'',
       category = PROMPT_INJECTION,
       severity = CRITICAL,
       remediation = ''Use prompt templates with strict parameter validation. Never concatenate user input directly into system prompts.'',
       references = [''https://owasp.org/www-project-llm-top-10/'',
                     ''https://portswigger.net/web-security/llm-attacks''],
       pattern = AG001_pattern,
       message_template = ''Potential prompt injection: User input concatenated in system prompt'' \<rparr>"

definition AG002 :: PatternRule where
  "AG002 =
     \<lparr> rule_id = ''AG-002'',
       name = ''Hardcoded API Key'',
       description = ''API keys or secrets are hardcoded in configuration'',
       category = SECRETS,
       severity = CRITICAL,
       remediation = ''Use environment variables or a secrets manager. Never hardcode credentials.'',
       references = [''https://cheatsheetseries.owasp.org/cheatsheets/Secrets_Management_Cheat_Sheet.html''],
       pattern = AG002_pattern,
       message_template = ''Hardcoded credential detected: {category}'' \<rparr>"

definition AG003 :: PatternRule where
  "AG003 =
     \<lparr> rule_id = ''AG-003'',
       name = ''Unrestricted Tool Permissions'',
       description = ''Tools have excessive permissions without validation'',
       category = PERMISSIONS,
       severity = HIGH,
       remediation = ''Implement least privilege principle. Validate all tool invocations.'',
       references = [''https://owasp.org/www-project-top-10/''],
       pattern = AG003_pattern,
       message_template = ''Excessive permissions detected: {category}'' \<rparr>"

definition AG004 :: PatternRule where
  "AG004 =
     \<lparr> rule_id = ''AG-004'',
       name = ''Unrestricted File System Access'',
       description = ''File system operations without path validation'',
       category = FILE_ACCESS,
       severity = HIGH,
       remediation = ''Validate all file paths against allowed directories. Use path canonicalization.'',
       references = [''https://owasp.org/www-community/attacks/Path_Traversal''],
       pattern = AG004_pattern,
       message_template = ''Unrestricted file access: {category}'' \<rparr>"

definition AG005 :: PatternRule where
  "AG005 =
     \<lparr> rule_id = ''AG-005'',
       name = ''Potential Data Exfiltration'',
       description = ''Tools can send data to external URLs without validation'',
       category = NETWORK,
       severity = MEDIUM,
       remediation = ''Validate all external URLs against an allowlist. Log all outbound requests.'',
       references = [''https://owasp.org/www-project-top-10/''],
       pattern = AG005_pattern,
       message_template = ''External network access detected: {category}'' \<rparr>"

definition RULES :: "rule_object list" where
  "RULES = [PatternRuleObject AG001, PatternRuleObject AG002, PatternRuleObject AG003,
            PatternRuleObject AG004, PatternRuleObject AG005]"

section \<open>The scanner\<close>

text \<open>
  What the scanner reads from its environment. \<open>lookup w path\<close> is what the system call
  \<open>stat\<close> finds for a path: \<open>None\<close> when it reports that nothing is there (the errors
  that \<open>pathlib\<close> ignores: \<open>ENOENT\<close>, \<open>ENOTDIR\<close>, \<open>EBADF\<close>, \<open>ELOOP\<close>);
  \<open>Unreachable e\<close> when it fails with another \<open>OSError\<close> \<open>e\<close>, whether or not anything
  is there (a directory on the way may not be searched: \<open>PermissionError\<close>; a name is
  longer than the file system allows: \<open>OSError\<close>); otherwise a directory or a regular file.
  A directory holds its entries in the order in which \<open>scandir\<close> lists them, each with what
  it is. A regular file holds what \<open>read_text(encoding="utf-8")\<close> gives: the text, or the
  exception it raises. \<open>clock\<close> gives the timestamp and the elapsed milliseconds of the
  scan of a path. The environment does not change during a scan.

  The scanner prints a line when it skips a rule or a file. The line for a skipped file
  holds the path, which comes from the file system: \<open>print_error w path\<close> is what
  \<open>print\<close> raises when it writes that line (\<open>UnicodeEncodeError\<close> for a name that
  cannot be encoded for the output), \<open>None\<close> when the line is written. The line for a
  skipped rule holds the identifier of the rule and the text of the exception; it is taken
  to be written. What is printed is not part of the model.
\<close>

datatype node =
    Directory "(string \<times> node) list"
  | RegularFile "error + string"
  | Unreachable error

record world =
  lookup :: "string \<Rightarrow> node option"
  clock :: "string \<Rightarrow> string \<times> int"
  print_error :: "string \<Rightarrow> error option"

text \<open>
  \<open>Path.exists\<close>, \<open>Path.is_file\<close> and \<open>Path.is_dir\<close>: an error of \<open>stat\<close> that
  \<open>pathlib\<close> does not ignore is raised again.
\<close>

definition exists :: "world \<Rightarrow> string \<Rightarrow> error + bool" where
  "exists w path =
     (case lookup w path of
        None \<Rightarrow> Inr False
      | Some (Directory entries) \<Rightarrow> Inr True
      | Some (RegularFile r) \<Rightarrow> Inr True
      | Some (Unreachable e) \<Rightarrow> Inl e)"



definition read_text :: "world \<Rightarrow> string \<Rightarrow> error + string" where
  "read_text w path =
     (case lookup w path of
        None \<Rightarrow> Inl FileNotFoundError
      | Some (Directory entries) \<Rightarrow> Inl IsADirectoryError
      | Some (RegularFile r) \<Rightarrow> r
      | Some (Unreachable e) \<Rightarrow> Inl e)"

text \<open>\<open>Scanner.__init__\<close>: \<open>self.rules = rules or RULES\<close>.\<close>

fun Scanner :: "rule_object list option \<Rightarrow> rule_object list" where
  "Scanner None = RULES"
| "Scanner (Some rules) = (if rules = [] then RULES else rules)"

text \<open>
  The loop over the rules in \<open>scan_file\<close>: the findings of a rule are appended; a rule
  whose \<open>check\<close> raises is reported and skipped.
\<close>

fun run_rules :: "rule_object list \<Rightarrow> string \<Rightarrow> string \<Rightarrow> Finding list" where
  "run_rules [] content path = []"
| "run_rules (rule # rules) content path =
     (case check rule content path of
        Inl e \<Rightarrow> run_rules rules content path
      | Inr rule_findings \<Rightarrow> rule_findings @ run_rules rules content path)"

definition scan_file :: "world \<Rightarrow> rule_object list \<Rightarrow> string \<Rightarrow> error + ScanResult" where
  "scan_file w rules path =
     (case exists w path of
        Inl e \<Rightarrow> Inl e
      | Inr found \<Rightarrow>
          if \<not> found then Inl FileNotFoundError
          else (case read_text w path of
                  Inl e \<Rightarrow> Inl e
                | Inr content \<Rightarrow> Inr
                    \<lparr> ScanResult.file_path = path,
                      findings = run_rules rules content path,
                      scanned_at = fst (clock w path),
                      duration_ms = snd (clock w path) \<rparr>))"

text \<open>\<open>PurePath.name\<close> and \<open>PurePath.suffix\<close> of a path given as a string.\<close>

definition path_name :: "string \<Rightarrow> string" where
  "path_name path = rev (takeWhile (\<lambda>c. c \<noteq> CHR ''/'') (rev path))"



text \<open>
  \<open>Path(directory).rglob("*")\<close>, for a directory given without a trailing slash. The path
  of an entry is the path of its directory, a slash and the name of the entry. The
  enumeration gives the entries of the directory, and then, for each directory among them in
  turn, the enumeration of that directory; the entries of a directory that cannot be
  reached are not enumerated. \<open>walk\<close> keeps with each path what the entry is. The
  enumeration starts with \<open>is_dir\<close> on the directory itself.
\<close>

definition make_child_relpath :: "string \<Rightarrow> string \<Rightarrow> string" where
  "make_child_relpath directory child = directory @ ''/'' @ child"

fun walk :: "string \<Rightarrow> node \<Rightarrow> (string \<times> node) list" where
  "walk directory (Directory entries) =
     map (\<lambda>entry. (make_child_relpath directory (fst entry), snd entry)) entries @
     concat (map (\<lambda>entry. walk (make_child_relpath directory (fst entry)) (snd entry)) entries)"
| "walk directory (RegularFile r) = []"
| "walk directory (Unreachable e) = []"




section \<open>Severity filtering in the command line\<close>

definition severity_order :: "string list" where
  "severity_order = [''critical'', ''high'', ''medium'', ''low'', ''info'']"

text \<open>\<open>Severity(value)\<close>: the member with that value, or \<open>ValueError\<close>.\<close>

definition Severity_of_value :: "string \<Rightarrow> error + Severity" where
  "Severity_of_value v =
     (case filter (\<lambda>m. Severity_value m = v) [CRITICAL, HIGH, MEDIUM, LOW, INFO] of
        m # _ \<Rightarrow> Inr m
      | [] \<Rightarrow> Inl ValueError)"

text \<open>\<open>xs.index(x)\<close>: the first position of \<open>x\<close>, or \<open>ValueError\<close>.\<close>

fun list_index :: "'a \<Rightarrow> 'a list \<Rightarrow> error + nat" where
  "list_index x [] = Inl ValueError"
| "list_index x (y # ys) =
     (if x = y then Inr 0
      else case list_index x ys of Inl e \<Rightarrow> Inl e | Inr i \<Rightarrow> Inr (Suc i))"

text \<open>The values a threshold lets through: \<open>severity_order[: min_index + 1]\<close>.\<close>

definition allowed :: "Severity \<Rightarrow> error + string list" where
  "allowed min_severity =
     (case list_index (Severity_value min_severity) severity_order of
        Inl e \<Rightarrow> Inl e
      | Inr min_index \<Rightarrow> Inr (take (min_index + 1) severity_order))"

definition keep :: "string list \<Rightarrow> Finding list \<Rightarrow> Finding list" where
  "keep allowed_values fs =
     filter (\<lambda>f. Severity_value (Finding.severity f) \<in> set allowed_values) fs"

text \<open>
  The filtering step of \<open>scan\<close>: with no \<open>--severity\<close> option (or an empty one) the results are
  left alone; otherwise each result's findings are replaced by the ones let through.
\<close>

definition filter_results :: "string option \<Rightarrow> ScanResult list \<Rightarrow> error + ScanResult list" where
  "filter_results severity_option results =
     (case severity_option of
        None \<Rightarrow> Inr results
      | Some v \<Rightarrow>
          if v = [] then Inr results
          else case Severity_of_value v of
            Inl e \<Rightarrow> Inl e
          | Inr min_severity \<Rightarrow>
              (case allowed min_severity of
                 Inl e \<Rightarrow> Inl e
               | Inr allowed_values \<Rightarrow>
                   Inr (map (\<lambda>result. result\<lparr>findings := keep allowed_values (findings result)\<rparr>)
                            results)))"

text \<open>
  The order of the specification: critical is the most severe, info the least.
  \<open>at_or_above s t\<close>: severity \<open>s\<close> is at or above the threshold \<open>t\<close>.
\<close>

fun rank :: "Severity \<Rightarrow> nat" where
  "rank CRITICAL = 4"
| "rank HIGH = 3"
| "rank MEDIUM = 2"
| "rank LOW = 1"
| "rank INFO = 0"

definition at_or_above :: "Severity \<Rightarrow> Severity \<Rightarrow> bool" where
  "at_or_above s t = (rank t \<le> rank s)"

section \<open>Notions used to state the properties\<close>

text \<open>The order of the findings of one rule: by line, and by column within a line.\<close>

definition in_file_order :: "Finding \<Rightarrow> Finding \<Rightarrow> bool" where
  "in_file_order f g =
     (line_number f < line_number g \<or> (line_number f = line_number g \<and> column f \<le> column g))"




text \<open>
  A line stripped of its leading and trailing whitespace, said without \<open>strip\<close>: the line
  is whitespace, the stripped text, whitespace, and the stripped text neither starts nor
  ends with whitespace.
\<close>

definition stripped_of :: "string \<Rightarrow> string \<Rightarrow> bool" where
  "stripped_of line core =
     (\<exists>lead trail. line = lead @ core @ trail \<and>
        (\<forall>c \<in> set lead. isspace c) \<and> (\<forall>c \<in> set trail. isspace c) \<and>
        (core = [] \<or> (\<not> isspace (hd core) \<and> \<not> isspace (last core))))"

text \<open>\<open>s.find(sub)\<close>: the 0-based index of the first occurrence of \<open>sub\<close>, or \<open>-1\<close>.\<close>

fun find_from :: "string \<Rightarrow> string \<Rightarrow> int \<Rightarrow> int" where
  "find_from sub [] i = (if sub = [] then i else - 1)"
| "find_from sub (c # cs) i =
     (if take (length sub) (c # cs) = sub then i else find_from sub cs (i + 1))"

definition str_find :: "string \<Rightarrow> string \<Rightarrow> int" where
  "str_find s sub = find_from sub s 0"

section \<open>Sample inputs\<close>

definition finding_of :: "Severity \<Rightarrow> Finding" where
  "finding_of s =
     \<lparr> Finding.rule_id = ''AG-000'', rule_name = ''n'', Finding.category = MEMORY,
       Finding.severity = s, message = ''m'', Finding.file_path = ''a.py'', line_number = 1,
       column = 1, snippet = ''x'', Finding.remediation = ''r'', Finding.references = [] \<rparr>"

definition result_of :: "Finding list \<Rightarrow> ScanResult" where
  "result_of fs = \<lparr> ScanResult.file_path = ''a.py'', findings = fs, scanned_at = ''t'', duration_ms = 0 \<rparr>"

text \<open>The line \<^verbatim>\<open>system_prompt = "Hello {user_input}"\<close>.\<close>

definition prompt_line :: string where
  "prompt_line = ''system_prompt = '' @ [CHR 0x22] @ ''Hello {user_input}'' @ [CHR 0x22]"

definition tool_source :: string where
  "tool_source = ''import os'' @ [newline] @ ''   data = requests.get(url)   ''"

definition tool_finding :: Finding where
  "tool_finding =
     \<lparr> Finding.rule_id = ''AG-005'', rule_name = ''Potential Data Exfiltration'',
       Finding.category = NETWORK, Finding.severity = MEDIUM,
       message = ''External network access detected: network'',
       Finding.file_path = ''proj/tool.py'', line_number = 2, column = 11,
       snippet = ''data = requests.get(url)'',
       Finding.remediation = Rule.remediation AG005,
       Finding.references = Rule.references AG005 \<rparr>"

definition long_source :: string where
  "long_source = ''  urllib'' @ replicate 100 (CHR ''x'') @ ''  ''"

definition mixed_source :: string where
  "mixed_source = ''fetch(u) http://x'' @ [newline] @ ''allow_all urllib''"




text \<open>
  A project directory. \<open>conf\<close> holds a file that cannot be read, a file with another
  extension, a file whose whole name is \<open>.yaml\<close>, and a directory with a clean file and a
  file without extension. \<open>store\<close> holds a clean file and the directory \<open>vault\<close>, which
  can be listed but not searched: \<open>stat\<close> fails on every path below it. \<open>inbox\<close> holds
  a clean file and a file that cannot be decoded and whose name cannot be encoded for the
  output (the name is written here with letters that can). A path whose last component has
  more than 255 characters names nothing, and \<open>stat\<close> fails on it.
\<close>

definition conf_entries :: "(string \<times> node) list" where
  "conf_entries =
     [(''locked.yaml'', RegularFile (Inl PermissionError)),
      (''README.md'', RegularFile (Inr ''see http://example.org'')),
      (''.yaml'', RegularFile (Inr ''see http://example.org'')),
      (''nested'', Directory
         [(''clean.json'', RegularFile (Inr ''name: demo'')),
          (''notes'', RegularFile (Inr ''urllib''))])]"

definition store_entries :: "(string \<times> node) list" where
  "store_entries =
     [(''clean.json'', RegularFile (Inr ''name: demo'')),
      (''vault'', Directory [(''secret.yaml'', Unreachable PermissionError)])]"

definition inbox_entries :: "(string \<times> node) list" where
  "inbox_entries =
     [(''legacy.yaml'', RegularFile (Inl UnicodeDecodeError)),
      (''clean.json'', RegularFile (Inr ''name: demo''))]"

definition example_entries :: "(string \<times> node) list" where
  "example_entries =
     [(''agent.py'', RegularFile (Inr prompt_line)),
      (''tool.py'', RegularFile (Inr tool_source)),
      (''mixed.py'', RegularFile (Inr mixed_source)),
      (''conf'', Directory conf_entries),
      (''store'', Directory store_entries),
      (''inbox'', Directory inbox_entries)]"

definition example_files :: "(string \<times> node) list" where
  "example_files = (''proj'', Directory example_entries) # walk ''proj'' (Directory example_entries)"

definition example_world :: world where
  "example_world =
     \<lparr> lookup = (\<lambda>path.
          if 255 < length (path_name path) then Some (Unreachable OSError)
          else if take 17 path = ''proj/store/vault/'' then Some (Unreachable PermissionError)
          else map_of example_files path),
       clock = (\<lambda>path. (''2024-01-01T00:00:00'', 0)),
       print_error = (\<lambda>path.
          if path = ''proj/inbox/legacy.yaml'' then Some UnicodeEncodeError else None) \<rparr>"

definition overlong_path :: string where
  "overlong_path = ''proj/'' @ replicate 300 (CHR ''x'') @ ''.py''"


section \<open>Severity filtering keeps the findings at or above the threshold\<close>

lemma Severity_of_value_value: "Severity_of_value (Severity_value X) = Inr X"
  by (cases X) (simp_all add: Severity_of_value_def)

lemma Severity_value_nonempty: "Severity_value X \<noteq> []"
  by (cases X) simp_all

lemma allowed_total: "\<exists>vs. allowed X = Inr vs"
  by (cases X) (simp_all add: allowed_def severity_order_def)

lemma allowed_value_iff:
  "allowed X = Inr vs \<Longrightarrow> (Severity_value s \<in> set vs) = at_or_above s X"
  by (cases X; cases s) (auto simp: allowed_def severity_order_def at_or_above_def)

lemma keep_at_or_above:
  "allowed X = Inr vs \<Longrightarrow> keep vs fs = filter (\<lambda>f. at_or_above (Finding.severity f) X) fs"
  by (simp add: keep_def allowed_value_iff)

lemma filter_results_at_or_above:
  "filter_results (Some (Severity_value X)) results =
     Inr (map (\<lambda>r. r\<lparr>findings := filter (\<lambda>f. at_or_above (Finding.severity f) X) (findings r)\<rparr>) results)"
proof -
  obtain vs where vs: "allowed X = Inr vs"
    using allowed_total by blast
  show ?thesis
    by (simp add: filter_results_def Severity_of_value_value Severity_value_nonempty vs
        keep_at_or_above[OF vs])
qed

lemma at_or_above_trans: "at_or_above s X \<Longrightarrow> at_or_above X Y \<Longrightarrow> at_or_above s Y"
  by (simp add: at_or_above_def)

text \<open>
  Claim C9. Filtering with a threshold keeps, in every result, exactly the findings whose
  severity is at or above the threshold in the order critical, high, medium, low, info.
  When the threshold \<open>Y\<close> is at most as severe as \<open>X\<close>, filtering with \<open>Y\<close> and then with
  \<open>X\<close> gives what filtering with \<open>X\<close> gives, and each result filtered with \<open>Y\<close> holds all
  the findings of the same result filtered with \<open>X\<close>.
\<close>

theorem severity_filtering:
  assumes "at_or_above X Y"
  shows "\<exists>rx ry.
      filter_results (Some (Severity_value X)) results = Inr rx \<and>
      filter_results (Some (Severity_value Y)) results = Inr ry \<and>
      rx = map (\<lambda>r. r\<lparr>findings := filter (\<lambda>f. at_or_above (Finding.severity f) X) (findings r)\<rparr>) results \<and>
      filter_results (Some (Severity_value X)) ry = Inr rx \<and>
      list_all2 (\<lambda>x y. set (findings x) \<subseteq> set (findings y)) rx ry"
proof -
  let ?fx = "\<lambda>r. r\<lparr>findings := filter (\<lambda>f. at_or_above (Finding.severity f) X) (findings r)\<rparr>"
  let ?fy = "\<lambda>r. r\<lparr>findings := filter (\<lambda>f. at_or_above (Finding.severity f) Y) (findings r)\<rparr>"
  have both: "(at_or_above s Y \<and> at_or_above s X) = at_or_above s X" for s
    using assms at_or_above_trans by blast
  have "map ?fx (map ?fy results) = map ?fx results"
    by (simp add: both)
  moreover have "list_all2 (\<lambda>x y. set (findings x) \<subseteq> set (findings y)) (map ?fx results) (map ?fy results)"
    using assms by (auto simp: list_all2_map1 list_all2_map2 intro!: list_all2_refl dest: at_or_above_trans)
  ultimately show ?thesis
    by (simp add: filter_results_at_or_above)
qed

theorem severity_filtering_witness:
  "at_or_above HIGH LOW \<and>
   filter_results (Some ''high'') [result_of [finding_of INFO, finding_of CRITICAL, finding_of LOW, finding_of HIGH]]
     = Inr [result_of [finding_of CRITICAL, finding_of HIGH]] \<and>
   filter_results (Some ''low'') [result_of [finding_of INFO, finding_of CRITICAL, finding_of LOW, finding_of HIGH]]
     = Inr [result_of [finding_of CRITICAL, finding_of LOW, finding_of HIGH]] \<and>
   filter_results (Some ''high'') [result_of [finding_of CRITICAL, finding_of LOW, finding_of HIGH]]
     = Inr [result_of [finding_of CRITICAL, finding_of HIGH]]"
proof -
  have h: "at_or_above HIGH LOW"
    by (simp add: at_or_above_def)
  show ?thesis
    using h severity_filtering[OF h, of "[result_of [finding_of INFO, finding_of CRITICAL, finding_of LOW, finding_of HIGH]]"]
    by (simp add: filter_results_at_or_above[of LOW, simplified] result_of_def finding_of_def at_or_above_def)
qed


section \<open>Facts about characters\<close>











lemma ord_Char:
  "ord (Char b0 b1 b2 b3 b4 b5 b6 b7) =
     of_bool b0 + 2 * of_bool b1 + 4 * of_bool b2 + 8 * of_bool b3 + 16 * of_bool b4 +
     32 * of_bool b5 + 64 * of_bool b6 + 128 * of_bool b7"
  by (simp add: ord_def)

lemma isupper_Char [code]:
  "isupper (Char b0 b1 b2 b3 b4 b5 b6 b7) =
     (b6 \<and> \<not> b5 \<and>
      (if b7 then \<not> (b0 \<and> b1 \<and> b2 \<and> b4)
       else (b0 \<or> b1 \<or> b2 \<or> b3 \<or> b4) \<and> \<not> (b3 \<and> b4 \<and> (b2 \<or> b0 \<and> b1))))"
  unfolding isupper_def ord_Char
  by (cases b0; cases b1; cases b2; cases b3; cases b4; cases b5; cases b6; cases b7; simp)

lemma islower_Char [code]:
  "islower (Char b0 b1 b2 b3 b4 b5 b6 b7) =
     (b6 \<and> b5 \<and>
      (if b7 then \<not> (b0 \<and> b1 \<and> b2 \<and> b4)
       else (b0 \<or> b1 \<or> b2 \<or> b3 \<or> b4) \<and> \<not> (b3 \<and> b4 \<and> (b2 \<or> b0 \<and> b1))))"
  unfolding islower_def ord_Char
  by (cases b0; cases b1; cases b2; cases b3; cases b4; cases b5; cases b6; cases b7; simp)

lemma lower_Char [code]:
  "lower (Char b0 b1 b2 b3 b4 b5 b6 b7) =
     (if isupper (Char b0 b1 b2 b3 b4 b5 b6 b7) then Char b0 b1 b2 b3 b4 True b6 b7
      else Char b0 b1 b2 b3 b4 b5 b6 b7)"
  unfolding lower_def isupper_Char
  by (cases b0; cases b1; cases b2; cases b3; cases b4; cases b5; cases b6; cases b7;
      simp add: ord_Char chr_def char_of_eq_iff)

lemma upper_Char [code]:
  "upper (Char b0 b1 b2 b3 b4 b5 b6 b7) =
     (if islower (Char b0 b1 b2 b3 b4 b5 b6 b7) then Char b0 b1 b2 b3 b4 False b6 b7
      else Char b0 b1 b2 b3 b4 b5 b6 b7)"
  unfolding upper_def islower_Char
  by (cases b0; cases b1; cases b2; cases b3; cases b4; cases b5; cases b6; cases b7;
      simp add: ord_Char chr_def char_of_eq_iff)

section \<open>Facts about strings and paths\<close>

lemma rev_takeWhile_dropWhile:
  "rev (dropWhile P (rev xs)) @ rev (takeWhile P (rev xs)) = xs"
proof -
  have "rev (dropWhile P (rev xs)) @ rev (takeWhile P (rev xs)) =
        rev (takeWhile P (rev xs) @ dropWhile P (rev xs))"
    by (simp only: rev_append)
  also have "\<dots> = rev (rev xs)"
    by (simp only: takeWhile_dropWhile_id)
  finally show ?thesis by simp
qed


lemma strip_stripped_of: "stripped_of s (strip s)"
proof -
  define d where "d = dropWhile isspace s"
  define lead where "lead = takeWhile isspace s"
  define trail where "trail = rev (takeWhile isspace (rev d))"
  define core where "core = rev (dropWhile isspace (rev d))"
  have core: "strip s = core"
    by (simp add: strip_def d_def core_def)
  have s: "s = lead @ d"
    by (simp add: lead_def d_def)
  have d: "d = core @ trail"
    unfolding core_def trail_def by (rule rev_takeWhile_dropWhile[symmetric])
  have lead: "\<forall>c \<in> set lead. isspace c"
    by (auto simp: lead_def dest: set_takeWhileD)
  have trail: "\<forall>c \<in> set trail. isspace c"
    by (auto simp: trail_def dest: set_takeWhileD)
  have ends: "\<not> isspace (hd core) \<and> \<not> isspace (last core)" if ne: "core \<noteq> []"
  proof -
    from ne have ne': "dropWhile isspace (rev d) \<noteq> []"
      by (simp add: core_def)
    have "last core = hd (dropWhile isspace (rev d))"
      using ne' by (simp add: core_def last_rev)
    moreover have "\<not> isspace (hd (dropWhile isspace (rev d)))"
      using ne' by (rule hd_dropWhile)
    ultimately have l: "\<not> isspace (last core)"
      by simp
    have "dropWhile isspace s \<noteq> []"
      using ne d by (simp add: d_def[symmetric])
    then have "\<not> isspace (hd (dropWhile isspace s))"
      by (rule hd_dropWhile)
    moreover have "hd d = hd core"
      using ne by (simp add: d)
    ultimately show ?thesis using l by (simp add: d_def[symmetric])
  qed
  have "s = lead @ core @ trail"
    using s d by simp
  with lead trail ends show ?thesis
    unfolding stripped_of_def core by blast
qed







section \<open>Matching ignores case\<close>


















section \<open>Where a match lies\<close>

lemma lit_match_suffix: "lit_match p s = Some t \<Longrightarrow> \<exists>k\<le>length s. t = drop k s"
proof (induction p s rule: lit_match.induct)
  case (1 s)
  then have "0 \<le> length s \<and> t = drop 0 s" by simp
  then show ?case by blast
next
  case (2 p ps)
  then show ?case by simp
next
  case (3 p ps c cs)
  from "3.prems" have "lower c = lower p" "lit_match ps cs = Some t"
    by (simp_all split: if_splits)
  from "3.IH"[OF this] obtain k where "k \<le> length cs" "t = drop k cs"
    by blast
  then have "Suc k \<le> length (c # cs) \<and> t = drop (Suc k) (c # cs)" by simp
  then show ?case by blast
qed


lemma count_run_le: "count_run a hi s \<le> length s"
  by (induction s arbitrary: hi) simp_all

lemma matches_from_suffix: "t \<in> set (matches_from r s) \<Longrightarrow> \<exists>k\<le>length s. t = drop k s"
proof (induction r arbitrary: s t)
  case (Lit p)
  then have "lit_match p s = Some t" by (cases "lit_match p s") simp_all
  then show ?case by (rule lit_match_suffix)
next
  case (One a)
  show ?case
  proof (cases s)
    case Nil
    with One show ?thesis by simp
  next
    case (Cons c cs)
    with One have "t = cs" by (simp split: if_splits)
    with Cons have "Suc 0 \<le> length s \<and> t = drop (Suc 0) s" by simp
    then show ?thesis by blast
  qed
next
  case (Repeat a lo hi)
  then have "t \<in> set (map (\<lambda>k. drop k s) (rev [lo ..< Suc (count_run a hi s)]))"
    by (simp only: matches_from.simps)
  then have "t \<in> (\<lambda>k. drop k s) ` {lo ..< Suc (count_run a hi s)}"
    by (simp only: set_map set_rev set_upt)
  then obtain k where k: "k < Suc (count_run a hi s)" "t = drop k s"
    by (auto simp only: image_iff atLeastLessThan_iff)
  from k(1) count_run_le[of a hi s] have "k \<le> length s" by linarith
  with k(2) show ?case by blast
next
  case (Seq r1 r2)
  then obtain u where "u \<in> set (matches_from r1 s)" "t \<in> set (matches_from r2 u)"
    by auto
  with Seq.IH(1)[of u s] Seq.IH(2)[of t u]
  obtain k1 k2 where k: "k1 \<le> length s" "u = drop k1 s" "k2 \<le> length u" "t = drop k2 u"
    by blast
  then have "k2 + k1 \<le> length s \<and> t = drop (k2 + k1) s" by simp
  then show ?case by blast
next
  case (Alt r1 r2)
  then show ?case by auto
qed

lemma search_span:
  "search r s pos ma = Some (st, en, t) \<Longrightarrow>
     pos \<le> st \<and> st \<le> en \<and> en \<le> pos + length s \<and> t = drop (en - pos) s \<and>
     t \<in> set (matches_from r (drop (st - pos) s))"
proof (induction s arbitrary: pos ma)
  case Nil
  show ?case
  proof (cases "filter (\<lambda>t. \<not> ma \<or> length t < length ([]::string)) (matches_from r [])")
    case Nil
    with Nil.prems show ?thesis by (simp add: search.simps)
  next
    case (Cons u us)
    from filter_eq_ConsD[OF Cons] have u: "u \<in> set (matches_from r [])"
      by simp
    with matches_from_length[OF u] have "u = []" by simp
    moreover from Cons Nil.prems have "st = pos \<and> en = pos + (length ([]::string) - length u) \<and> t = u"
      by (auto simp: search.simps)
    ultimately show ?thesis using u by simp
  qed
next
  case (Cons c cs)
  show ?case
  proof (cases "filter (\<lambda>t. \<not> ma \<or> length t < length (c # cs)) (matches_from r (c # cs))")
    case Nil
    with Cons.prems have "search r cs (Suc pos) False = Some (st, en, t)"
      by (simp add: search.simps)
    from Cons.IH[OF this]
    have ih: "Suc pos \<le> st" "st \<le> en" "en \<le> Suc pos + length cs" "t = drop (en - Suc pos) cs"
      "t \<in> set (matches_from r (drop (st - Suc pos) cs))"
      by auto
    from ih(1,2) have "en - pos = Suc (en - Suc pos)" "st - pos = Suc (st - Suc pos)"
      by simp_all
    with ih show ?thesis by simp
  next
    case (Cons u us)
    from filter_eq_ConsD[OF Cons] have u: "u \<in> set (matches_from r (c # cs))"
      by simp
    from matches_from_suffix[OF u] obtain k where k: "k \<le> length (c # cs)" "u = drop k (c # cs)"
      by blast
    from Cons Cons.prems have "st = pos \<and> en = pos + (length (c # cs) - length u) \<and> t = u"
      by (auto simp: search.simps)
    moreover from k have "length (c # cs) - length u = k" by simp
    ultimately show ?thesis using u k by simp
  qed
qed

lemma finditer_from_span:
  "(st, en) \<in> set (finditer_from r s pos ma) \<Longrightarrow>
     pos \<le> st \<and> st \<le> en \<and> en \<le> pos + length s \<and>
     drop (en - pos) s \<in> set (matches_from r (drop (st - pos) s))"
proof (induction r s pos ma arbitrary: st en rule: finditer_from.induct)
  case (1 r s pos ma)
  show ?case
  proof (cases "search r s pos ma")
    case None
    with "1.prems" show ?thesis by (simp add: finditer_from.simps[of r s])
  next
    case (Some x)
    obtain st0 en0 t where x: "x = (st0, en0, t)" by (cases x)
    from search_span[OF Some[unfolded x]]
    have sp: "pos \<le> st0" "st0 \<le> en0" "en0 \<le> pos + length s" "t = drop (en0 - pos) s"
      "t \<in> set (matches_from r (drop (st0 - pos) s))"
      by auto
    from "1.prems" Some x
    consider "(st, en) = (st0, en0)" | "(st, en) \<in> set (finditer_from r t en0 (st0 = en0))"
      by (auto simp: finditer_from.simps[of r s])
    then show ?thesis
    proof cases
      case 1
      with sp show ?thesis by simp
    next
      case 2
      from "1.IH"[OF Some[unfolded x] refl refl 2]
      have ih: "en0 \<le> st" "st \<le> en" "en \<le> en0 + length t"
        "drop (en - en0) t \<in> set (matches_from r (drop (st - en0) t))"
        by auto
      from sp ih have "drop (en - en0) t = drop (en - pos) s" "drop (st - en0) t = drop (st - pos) s"
        by simp_all
      moreover from sp ih have "en \<le> pos + length s" by simp
      ultimately show ?thesis using sp ih by simp
    qed
  qed
qed

lemma finditer_span:
  "(st, en) \<in> set (finditer r line) \<Longrightarrow>
     st \<le> en \<and> en \<le> length line \<and> drop en line \<in> set (matches_from r (drop st line))"
  using finditer_from_span[of st en r line 0 False] by (simp add: finditer_def)

lemma finditer_from_sorted: "sorted_wrt (\<lambda>a b. fst a \<le> fst b) (finditer_from r s pos ma)"
proof (induction r s pos ma rule: finditer_from.induct)
  case (1 r s pos ma)
  show ?case
  proof (cases "search r s pos ma")
    case None
    then show ?thesis by (simp add: finditer_from.simps[of r s])
  next
    case (Some x)
    obtain st0 en0 t where x: "x = (st0, en0, t)" by (cases x)
    from search_span[OF Some[unfolded x]] have "st0 \<le> en0" by simp
    moreover have "en0 \<le> fst m" if "m \<in> set (finditer_from r t en0 (st0 = en0))" for m
      using finditer_from_span[of "fst m" "snd m" r t en0 "st0 = en0"] that by simp
    ultimately have "\<forall>m\<in>set (finditer_from r t en0 (st0 = en0)). st0 \<le> fst m"
      by fastforce
    with "1.IH"[OF Some[unfolded x] refl refl] Some x show ?thesis
      by (simp add: finditer_from.simps[of r s])
  qed
qed

lemma finditer_sorted: "sorted_wrt (\<lambda>a b. fst a \<le> fst b) (finditer r line)"
  by (simp add: finditer_def finditer_from_sorted)

section \<open>Where a finding comes from\<close>

lemma str_split_nonempty: "str_split sep s \<noteq> []"
  by (induction s) (auto split: list.splits)

lemma enumerate_from_set:
  "(n, x) \<in> set (enumerate_from k xs) \<Longrightarrow> k \<le> n \<and> n < k + int (length xs) \<and> x = xs ! nat (n - k)"
proof (induction xs arbitrary: k)
  case Nil
  then show ?case by simp
next
  case (Cons a xs)
  from Cons.prems consider "n = k" "x = a" | "(n, x) \<in> set (enumerate_from (k + 1) xs)"
    by auto
  then show ?case
  proof cases
    case 1
    then show ?thesis by simp
  next
    case 2
    from Cons.IH[OF 2] have ih: "k + 1 \<le> n" "n < k + 1 + int (length xs)" "x = xs ! nat (n - (k + 1))"
      by simp_all
    from ih(1) have "nat (n - k) = Suc (nat (n - (k + 1)))" by simp
    with ih show ?thesis by simp
  qed
qed

lemma match_loop_origin:
  "match_loop self path n line ms = Inr fs \<Longrightarrow> f \<in> set fs \<Longrightarrow>
     \<exists>m\<in>set ms. new_finding self path n line m = Inr f"
  by (induction ms arbitrary: fs) (auto split: sum.splits)

lemma line_loop_origin:
  "line_loop self path nls = Inr fs \<Longrightarrow> f \<in> set fs \<Longrightarrow>
     \<exists>(n, line)\<in>set nls. \<exists>m\<in>set (finditer (pattern self) line).
        new_finding self path n line m = Inr f"
proof (induction nls arbitrary: fs)
  case Nil
  then show ?case by simp
next
  case (Cons a nls)
  obtain n line where a: "a = (n, line)" by (cases a)
  from Cons.prems(1) a obtain gs hs where
    gs: "match_loop self path n line (finditer (pattern self) line) = Inr gs"
    and hs: "line_loop self path nls = Inr hs" and fs: "fs = gs @ hs"
    by (auto split: sum.splits)
  from Cons.prems(2) fs consider "f \<in> set gs" | "f \<in> set hs" by auto
  then show ?case
  proof cases
    case 1
    from match_loop_origin[OF gs 1] a show ?thesis by auto
  next
    case 2
    from Cons.IH[OF hs 2] show ?thesis by auto
  qed
qed

lemma check_origin:
  assumes "PatternRule_check self content path = Inr fs" and "f \<in> set fs"
  shows "\<exists>n st en. 1 \<le> n \<and> n \<le> int (length (str_split newline content)) \<and>
           (st, en) \<in> set (finditer (pattern self) (str_split newline content ! nat (n - 1))) \<and>
           new_finding self path n (str_split newline content ! nat (n - 1)) (st, en) = Inr f"
proof -
  let ?lines = "str_split newline content"
  from line_loop_origin[OF assms(1)[unfolded PatternRule_check_def] assms(2)]
  obtain n line m where nl: "(n, line) \<in> set (enumerate_from 1 ?lines)"
    and m: "m \<in> set (finditer (pattern self) line)"
    and f: "new_finding self path n line m = Inr f"
    by auto
  from enumerate_from_set[OF nl]
  have "1 \<le> n" "n \<le> int (length ?lines)" "line = ?lines ! nat (n - 1)"
    by simp_all
  with m f show ?thesis
    by (intro exI[of _ n] exI[of _ "fst m"] exI[of _ "snd m"]) simp
qed

lemma new_finding_fields:
  "new_finding self path n line m = Inr f \<Longrightarrow>
     line_number f = n \<and> column f = int (fst m) + 1 \<and> snippet f = take 100 (strip line) \<and>
     Finding.file_path f = path \<and> Finding.rule_id f = Rule.rule_id self \<and>
     rule_name f = name self \<and>
     Finding.severity f = Rule.severity self \<and> Finding.category f = Rule.category self \<and>
     Finding.remediation f = Rule.remediation self \<and> Finding.references f = Rule.references self"
  by (auto simp: new_finding_def split: sum.splits)

lemma tool_check: "PatternRule_check AG005 tool_source ''proj/tool.py'' = Inr [tool_finding]"
  by code_simp

text \<open>
  Claim C2. For every finding that \<open>PatternRule.check\<close> returns, the column is the 0-based
  offset of the start of a match in the original line (the line as split from the content,
  not stripped) plus 1: the pattern matches there, from that offset to the end offset of
  the match. So the column is at least 1; the line number is at least 1 and names a line of
  the content.
\<close>

theorem finding_location:
  assumes "PatternRule_check self content path = Inr fs" and "f \<in> set fs"
  shows "1 \<le> line_number f \<and> line_number f \<le> int (length (str_split newline content)) \<and>
         1 \<le> column f \<and>
         (\<exists>st en. (st, en) \<in> set (finditer (pattern self)
                                   (str_split newline content ! nat (line_number f - 1))) \<and>
            column f = int st + 1 \<and> st \<le> en \<and>
            en \<le> length (str_split newline content ! nat (line_number f - 1)) \<and>
            drop en (str_split newline content ! nat (line_number f - 1))
              \<in> set (matches_from (pattern self)
                       (drop st (str_split newline content ! nat (line_number f - 1)))))"
proof -
  from check_origin[OF assms] obtain n st en where
    n: "1 \<le> n" "n \<le> int (length (str_split newline content))"
    and m: "(st, en) \<in> set (finditer (pattern self) (str_split newline content ! nat (n - 1)))"
    and f: "new_finding self path n (str_split newline content ! nat (n - 1)) (st, en) = Inr f"
    by blast
  from new_finding_fields[OF f] have ff: "line_number f = n" "column f = int st + 1"
    by simp_all
  from finditer_span[OF m] m n ff show ?thesis
    by (intro conjI exI[of _ st] exI[of _ en]) simp_all
qed

theorem finding_location_witness:
  "PatternRule_check AG005 tool_source ''proj/tool.py'' = Inr [tool_finding] \<and>
   tool_finding \<in> set [tool_finding] \<and>
   line_number tool_finding = 2 \<and> column tool_finding = 11 \<and>
   (\<exists>st en. (st, en) \<in> set (finditer (pattern AG005)
                              (str_split newline tool_source ! nat (line_number tool_finding - 1))) \<and>
      column tool_finding = int st + 1)"
proof -
  have m: "tool_finding \<in> set [tool_finding]" by simp
  from finding_location[OF tool_check m] have
    "\<exists>st en. (st, en) \<in> set (finditer (pattern AG005)
                              (str_split newline tool_source ! nat (line_number tool_finding - 1))) \<and>
      column tool_finding = int st + 1"
    by blast
  then show ?thesis
    using tool_check by (simp add: tool_finding_def)
qed

lemma long_check:
  "\<exists>f. PatternRule_check AG005 long_source ''proj/tool.py'' = Inr [f] \<and>
       snippet f = ''urllib'' @ replicate 94 (CHR ''x'')"
proof -
  have "map snippet (projr (PatternRule_check AG005 long_source ''proj/tool.py'')) =
          [''urllib'' @ replicate 94 (CHR ''x'')] \<and>
        isl (PatternRule_check AG005 long_source ''proj/tool.py'') = False"
    by code_simp
  then show ?thesis
    by (cases "PatternRule_check AG005 long_source ''proj/tool.py''") auto
qed

lemma long_strip: "length (strip long_source) = 106 \<and> length (strip (take 100 long_source)) = 98"
  by code_simp

lemma tool_line:
  "str_split newline tool_source ! nat (line_number tool_finding - 1) =
     ''   data = requests.get(url)   ''"
  by code_simp

lemma stripped_of_strip:
  assumes "stripped_of s core"
  shows "core = strip s"
proof -
  from assms obtain lead trail where
    s: "s = lead @ core @ trail" and lead: "\<forall>c \<in> set lead. isspace c"
    and trail: "\<forall>c \<in> set trail. isspace c"
    and ends: "core = [] \<or> (\<not> isspace (hd core) \<and> \<not> isspace (last core))"
    unfolding stripped_of_def by blast
  have d1: "dropWhile isspace s = dropWhile isspace (core @ trail)"
    unfolding s by (rule dropWhile_append2) (use lead in simp)
  show ?thesis
  proof (cases "core = []")
    case True
    have dt: "dropWhile isspace trail = []"
      using trail by (simp add: dropWhile_eq_Nil_conv)
    have "strip s = rev (dropWhile isspace (rev (dropWhile isspace (core @ trail))))"
      by (simp only: strip_def d1)
    also have "\<dots> = []"
      by (simp only: True append_Nil dt rev.simps dropWhile.simps)
    finally show ?thesis
      using True by simp
  next
    case False
    with ends have h: "\<not> isspace (hd core)" and l: "\<not> isspace (last core)"
      by simp_all
    from False h have "dropWhile isspace (core @ trail) = core @ trail"
      by (cases core) simp_all
    with d1 have d2: "dropWhile isspace s = core @ trail"
      by simp
    have "dropWhile isspace (rev trail @ rev core) = dropWhile isspace (rev core)"
      by (rule dropWhile_append2) (use trail in simp)
    moreover have "dropWhile isspace (rev core) = rev core"
      using False l by (cases core rule: rev_cases) simp_all
    ultimately show ?thesis
      by (simp add: strip_def d2)
  qed
qed

text \<open>
  Claim C4. For every finding that \<open>PatternRule.check\<close> returns, the snippet is the line of
  the match with its leading and trailing whitespace stripped, cut to its first 100
  characters: the line is stripped first and cut afterwards. The stripped line is the one
  text that the line holds between leading and trailing whitespace and that neither starts
  nor ends with whitespace.
\<close>

theorem finding_snippet:
  assumes "PatternRule_check self content path = Inr fs" and "f \<in> set fs"
  shows "1 \<le> line_number f \<and> line_number f \<le> int (length (str_split newline content)) \<and>
         (\<exists>core. stripped_of (str_split newline content ! nat (line_number f - 1)) core \<and>
            (\<forall>other. stripped_of (str_split newline content ! nat (line_number f - 1)) other
               \<longrightarrow> other = core) \<and>
            snippet f = take 100 core) \<and>
         length (snippet f) \<le> 100"
proof -
  from check_origin[OF assms] obtain n st en where
    n: "1 \<le> n" "n \<le> int (length (str_split newline content))"
    and f: "new_finding self path n (str_split newline content ! nat (n - 1)) (st, en) = Inr f"
    by blast
  from new_finding_fields[OF f] have
    ln: "line_number f = n"
    and sn: "snippet f = take 100 (strip (str_split newline content ! nat (n - 1)))"
    by simp_all
  have "stripped_of (str_split newline content ! nat (n - 1))
          (strip (str_split newline content ! nat (n - 1)))"
    by (rule strip_stripped_of)
  moreover have "\<forall>other. stripped_of (str_split newline content ! nat (n - 1)) other
                   \<longrightarrow> other = strip (str_split newline content ! nat (n - 1))"
    using stripped_of_strip by blast
  ultimately have "\<exists>core. stripped_of (str_split newline content ! nat (n - 1)) core \<and>
            (\<forall>other. stripped_of (str_split newline content ! nat (n - 1)) other
               \<longrightarrow> other = core) \<and>
            snippet f = take 100 core"
    using sn by blast
  moreover have "length (snippet f) \<le> 100"
    by (simp add: sn)
  ultimately show ?thesis
    using n by (simp add: ln)
qed

theorem finding_snippet_witness:
  "PatternRule_check AG005 tool_source ''proj/tool.py'' = Inr [tool_finding] \<and>
   tool_finding \<in> set [tool_finding] \<and>
   str_split newline tool_source ! nat (line_number tool_finding - 1) =
     ''   data = requests.get(url)   '' \<and>
   stripped_of ''   data = requests.get(url)   '' ''data = requests.get(url)'' \<and>
   snippet tool_finding = ''data = requests.get(url)'' \<and>
   (\<exists>f. PatternRule_check AG005 long_source ''proj/tool.py'' = Inr [f] \<and> f \<in> set [f] \<and>
        snippet f = ''urllib'' @ replicate 94 (CHR ''x'') \<and>
        (\<exists>core. stripped_of (str_split newline long_source ! nat (line_number f - 1)) core \<and>
           length core = 106 \<and> snippet f = take 100 core) \<and>
        length (snippet f) = 100 \<and> length (strip (take 100 long_source)) = 98)"
proof -
  have tm: "tool_finding \<in> set [tool_finding]" by simp
  have ts: "snippet tool_finding = ''data = requests.get(url)''"
    by (simp add: tool_finding_def)
  from finding_snippet[OF tool_check tm] obtain core where
    core: "stripped_of (str_split newline tool_source ! nat (line_number tool_finding - 1)) core"
    and cut: "snippet tool_finding = take 100 core"
    by blast
  from cut have "length (take 100 core) = 24"
    by (simp only: ts[symmetric] cut[symmetric]) (simp add: tool_finding_def)
  then have "take 100 core = core"
    by (simp add: min_def split: if_splits)
  with cut ts have "core = ''data = requests.get(url)''"
    by simp
  with core have tc: "stripped_of ''   data = requests.get(url)   '' ''data = requests.get(url)''"
    by (simp only: tool_line)
  from long_check obtain f where
    c: "PatternRule_check AG005 long_source ''proj/tool.py'' = Inr [f]"
    and s: "snippet f = ''urllib'' @ replicate 94 (CHR ''x'')"
    by blast
  have m: "f \<in> set [f]" by simp
  from finding_snippet[OF c m] obtain lcore where
    lcore: "stripped_of (str_split newline long_source ! nat (line_number f - 1)) lcore"
    and lcut: "snippet f = take 100 lcore" and ln: "1 \<le> line_number f"
      "line_number f \<le> int (length (str_split newline long_source))"
    by blast
  have "str_split newline long_source = [long_source]"
    by code_simp
  with ln have "str_split newline long_source ! nat (line_number f - 1) = long_source"
    by simp
  with lcore have "lcore = strip long_source"
    by (simp add: stripped_of_strip)
  with long_strip have ll: "length lcore = 106"
    by simp
  have len: "length (snippet f) = 100"
    by (simp add: s)
  from long_strip have short: "length (strip (take 100 long_source)) = 98"
    by blast
  have "\<exists>core. stripped_of (str_split newline long_source ! nat (line_number f - 1)) core \<and>
           length core = 106 \<and> snippet f = take 100 core"
    using lcore ll lcut by blast
  with c m s len short have
    "\<exists>f. PatternRule_check AG005 long_source ''proj/tool.py'' = Inr [f] \<and> f \<in> set [f] \<and>
        snippet f = ''urllib'' @ replicate 94 (CHR ''x'') \<and>
        (\<exists>core. stripped_of (str_split newline long_source ! nat (line_number f - 1)) core \<and>
           length core = 106 \<and> snippet f = take 100 core) \<and>
        length (snippet f) = 100 \<and> length (strip (take 100 long_source)) = 98"
    by blast
  with tool_check tm tool_line tc ts show ?thesis
    by blast
qed

text \<open>
  Every finding that \<open>PatternRule.check\<close> returns has the path it was given as its file
  path, and the identifier, severity, category, remediation and references of the rule.
\<close>

lemma check_fields:
  assumes "PatternRule_check self content path = Inr fs" and "f \<in> set fs"
  shows "Finding.file_path f = path \<and> Finding.rule_id f = Rule.rule_id self \<and>
         Finding.severity f = Rule.severity self \<and> Finding.category f = Rule.category self \<and>
         Finding.remediation f = Rule.remediation self \<and>
         Finding.references f = Rule.references self"
proof -
  from check_origin[OF assms] obtain n st en where
    f: "new_finding self path n (str_split newline content ! nat (n - 1)) (st, en) = Inr f"
    by blast
  from new_finding_fields[OF f] show ?thesis by simp
qed

section \<open>The order of the findings\<close>

lemma match_loop_sorted:
  "match_loop self path n line ms = Inr fs \<Longrightarrow> sorted_wrt (\<lambda>a b. fst a \<le> fst b) ms \<Longrightarrow>
     sorted_wrt in_file_order fs \<and> (\<forall>f\<in>set fs. line_number f = n)"
proof (induction ms arbitrary: fs)
  case Nil
  then show ?case by simp
next
  case (Cons m ms)
  from Cons.prems(1) obtain f gs where
    f: "new_finding self path n line m = Inr f"
    and gs: "match_loop self path n line ms = Inr gs" and fs: "fs = f # gs"
    by (auto split: sum.splits)
  from Cons.prems(2) have sorted: "sorted_wrt (\<lambda>a b. fst a \<le> fst b) ms"
    and first: "\<forall>m'\<in>set ms. fst m \<le> fst m'"
    by simp_all
  from Cons.IH[OF gs sorted] have ih: "sorted_wrt in_file_order gs" "\<forall>g\<in>set gs. line_number g = n"
    by simp_all
  have "in_file_order f g" if "g \<in> set gs" for g
  proof -
    from match_loop_origin[OF gs that] obtain m' where
      "m' \<in> set ms" "new_finding self path n line m' = Inr g"
      by blast
    with first new_finding_fields[OF f] new_finding_fields[of self path n line m' g]
    show ?thesis by (simp add: in_file_order_def)
  qed
  with ih new_finding_fields[OF f] fs show ?case by simp
qed

lemma line_loop_sorted:
  "line_loop self path (enumerate_from k xs) = Inr fs \<Longrightarrow>
     sorted_wrt in_file_order fs \<and> (\<forall>f\<in>set fs. k \<le> line_number f)"
proof (induction xs arbitrary: k fs)
  case Nil
  then show ?case by simp
next
  case (Cons x xs)
  from Cons.prems obtain gs hs where
    gs: "match_loop self path k x (finditer (pattern self) x) = Inr gs"
    and hs: "line_loop self path (enumerate_from (k + 1) xs) = Inr hs" and fs: "fs = gs @ hs"
    by (auto split: sum.splits)
  from match_loop_sorted[OF gs finditer_sorted]
  have g: "sorted_wrt in_file_order gs" "\<forall>f\<in>set gs. line_number f = k"
    by simp_all
  from Cons.IH[OF hs] have h: "sorted_wrt in_file_order hs" "\<forall>f\<in>set hs. k + 1 \<le> line_number f"
    by simp_all
  from g(2) h(2) have "\<forall>a\<in>set gs. \<forall>b\<in>set hs. in_file_order a b"
    by (fastforce simp: in_file_order_def)
  with g h fs show ?case by (fastforce simp: sorted_wrt_append)
qed

lemma PatternRule_check_sorted:
  "PatternRule_check self content path = Inr fs \<Longrightarrow> sorted_wrt in_file_order fs"
  using line_loop_sorted[of self path 1 "str_split newline content" fs]
  by (simp add: PatternRule_check_def)

lemma run_rules_concat:
  "run_rules rules content path =
     concat (map (\<lambda>rule. case check rule content path of Inl e \<Rightarrow> [] | Inr fs \<Rightarrow> fs) rules)"
  by (induction rules) (simp_all split: sum.splits)


lemma scan_file_Inr:
  "scan_file w rules path = Inr result \<Longrightarrow>
     \<exists>content. lookup w path = Some (RegularFile (Inr content)) \<and>
        result = \<lparr> ScanResult.file_path = path, findings = run_rules rules content path,
                   scanned_at = fst (clock w path), duration_ms = snd (clock w path) \<rparr>"
  by (auto simp: scan_file_def exists_def read_text_def
      split: if_splits option.splits sum.splits node.splits)

lemma scan_file_readable:
  "lookup w path = Some (RegularFile (Inr content)) \<Longrightarrow>
     scan_file w rules path =
       Inr \<lparr> ScanResult.file_path = path, findings = run_rules rules content path,
             scanned_at = fst (clock w path), duration_ms = snd (clock w path) \<rparr>"
  by (simp add: scan_file_def exists_def read_text_def)


lemma mixed_check:
  "map (\<lambda>f. (Finding.rule_id f, line_number f, column f))
       (run_rules RULES mixed_source ''proj/mixed.py'') =
     [(''AG-003'', 2, 1), (''AG-005'', 1, 1), (''AG-005'', 1, 10), (''AG-005'', 2, 11)]"
  by code_simp

lemma example_lookup:
  "lookup example_world ''proj/agent.py'' = Some (RegularFile (Inr prompt_line)) \<and>
   lookup example_world ''proj/tool.py'' = Some (RegularFile (Inr tool_source)) \<and>
   lookup example_world ''proj/mixed.py'' = Some (RegularFile (Inr mixed_source)) \<and>
   lookup example_world ''proj/missing.py'' = None \<and>
   lookup example_world ''proj/conf/locked.yaml'' = Some (RegularFile (Inl PermissionError)) \<and>
   lookup example_world ''proj/conf/nested/clean.json'' = Some (RegularFile (Inr ''name: demo''))"
  by code_simp

text \<open>
  Claim C8. The findings of a scanned file are the findings of the rules in the order of the
  rule list, one rule after the other (a rule whose check fails adds none); the findings of
  one pattern rule are in the order of the lines, and within a line in the order of the
  columns.
\<close>

theorem findings_order:
  assumes "scan_file w rules path = Inr result"
  shows "\<exists>content. lookup w path = Some (RegularFile (Inr content)) \<and>
           findings result =
             concat (map (\<lambda>rule. case check rule content path of Inl e \<Rightarrow> [] | Inr fs \<Rightarrow> fs)
                         rules) \<and>
           (\<forall>self fs. PatternRuleObject self \<in> set rules \<and>
                check (PatternRuleObject self) content path = Inr fs \<longrightarrow>
                sorted_wrt in_file_order fs)"
proof -
  from scan_file_Inr[OF assms] obtain content where
    c: "lookup w path = Some (RegularFile (Inr content))"
    and r: "findings result = run_rules rules content path"
    by auto
  show ?thesis
    using c r by (auto simp: run_rules_concat dest: PatternRule_check_sorted)
qed

theorem findings_order_witness:
  "\<exists>result. scan_file example_world RULES ''proj/mixed.py'' = Inr result \<and>
      map (\<lambda>f. (Finding.rule_id f, line_number f, column f)) (findings result) =
        [(''AG-003'', 2, 1), (''AG-005'', 1, 1), (''AG-005'', 1, 10), (''AG-005'', 2, 11)]"
proof -
  from example_lookup
  have l: "lookup example_world ''proj/mixed.py'' = Some (RegularFile (Inr mixed_source))"
    by simp
  from scan_file_readable[OF l, of RULES] obtain result where
    r: "scan_file example_world RULES ''proj/mixed.py'' = Inr result"
    by blast
  from findings_order[OF r] l
  have "findings result =
          concat (map (\<lambda>rule. case check rule mixed_source ''proj/mixed.py'' of
                                 Inl e \<Rightarrow> [] | Inr fs \<Rightarrow> fs) RULES)"
    by auto
  then have "findings result = run_rules RULES mixed_source ''proj/mixed.py''"
    by (simp only: run_rules_concat)
  with r mixed_check show ?thesis by simp
qed

section \<open>Failures of a rule and of a file\<close>





lemma overlong_lookup:
  "lookup example_world overlong_path = Some (Unreachable OSError) \<and>
   overlong_path \<notin> set (map fst example_files) \<and>
   255 < length (path_name overlong_path)"
  by code_simp

text \<open>
  Claim C6, as the code has it. \<open>scan_file\<close> on a path at which the check for existence
  finds nothing raises \<open>FileNotFoundError\<close> and returns no result. When the check for
  existence itself fails, its error is raised instead. On a path that names a readable file
  \<open>scan_file\<close> returns a result, so no \<open>FileNotFoundError\<close> is raised; it returns a
  result for no other path.
\<close>

theorem scan_file_not_found:
  "(lookup w path = None \<longrightarrow> scan_file w rules path = Inl FileNotFoundError) \<and>
   (lookup w path = Some (Unreachable e) \<longrightarrow> scan_file w rules path = Inl e) \<and>
   (lookup w path = Some (RegularFile (Inr content)) \<longrightarrow>
      (\<exists>result. scan_file w rules path = Inr result \<and> ScanResult.file_path result = path)) \<and>
   (\<forall>result. scan_file w rules path = Inr result \<longrightarrow>
      (\<exists>text. lookup w path = Some (RegularFile (Inr text))))"
proof -
  have "\<forall>result. scan_file w rules path = Inr result \<longrightarrow>
          (\<exists>text. lookup w path = Some (RegularFile (Inr text)))"
    using scan_file_Inr by blast
  then show ?thesis
    by (simp add: scan_file_def exists_def read_text_def)
qed

theorem scan_file_not_found_witness:
  "lookup example_world ''proj/missing.py'' = None \<and>
   scan_file example_world RULES ''proj/missing.py'' = Inl FileNotFoundError \<and>
   lookup example_world overlong_path = Some (Unreachable OSError) \<and>
   scan_file example_world RULES overlong_path = Inl OSError \<and>
   lookup example_world ''proj/agent.py'' = Some (RegularFile (Inr prompt_line)) \<and>
   (\<exists>result. scan_file example_world RULES ''proj/agent.py'' = Inr result \<and>
      ScanResult.file_path result = ''proj/agent.py'')"
proof -
  from example_lookup have
    m: "lookup example_world ''proj/missing.py'' = None"
    and a: "lookup example_world ''proj/agent.py'' = Some (RegularFile (Inr prompt_line))"
    by simp_all
  from overlong_lookup have
    l: "lookup example_world overlong_path = Some (Unreachable OSError)"
    by simp
  from scan_file_not_found[of example_world "''proj/missing.py''" RULES OSError prompt_line] m
  have 1: "scan_file example_world RULES ''proj/missing.py'' = Inl FileNotFoundError"
    by (rule_tac mp) (erule conjunct1)
  from scan_file_not_found[of example_world overlong_path RULES OSError prompt_line] l
  have 2: "scan_file example_world RULES overlong_path = Inl OSError"
    by (elim conjE) (erule (1) mp)
  from scan_file_not_found[of example_world "''proj/agent.py''" RULES OSError prompt_line] a
  have 3: "\<exists>result. scan_file example_world RULES ''proj/agent.py'' = Inr result \<and>
             ScanResult.file_path result = ''proj/agent.py''"
    by (elim conjE) (erule (1) mp)
  from m 1 l 2 a 3 show ?thesis
    by (intro conjI)
qed

text \<open>
  Claim C6, as it is written, has \<open>FileNotFoundError\<close> for every path that does not
  exist. A path whose name is too long names nothing; the check for existence fails on it,
  and \<open>scan_file\<close> raises the \<open>OSError\<close> of that check.
\<close>

theorem scan_file_not_found_counterexample:
  "overlong_path \<notin> set (map fst example_files) \<and>
   255 < length (path_name overlong_path) \<and>
   scan_file example_world RULES overlong_path = Inl OSError \<and>
   scan_file example_world RULES overlong_path \<noteq> Inl FileNotFoundError"
proof -
  have "scan_file example_world RULES overlong_path = Inl OSError"
    using overlong_lookup by (simp add: scan_file_def exists_def)
  with overlong_lookup show ?thesis
    by simp
qed














section \<open>The prompt scenario\<close>

lemma prompt_check:
  "map (\<lambda>f. (Finding.rule_id f, Finding.severity f, line_number f, column f))
       (run_rules RULES prompt_line path) = [(''AG-001'', CRITICAL, 1, 1)]"
  by code_simp

lemma prompt_match: "finditer AG001_pattern prompt_line = [(0, 34)]"
  by code_simp

lemma prompt_find: "str_find prompt_line ''{user_input'' = 23"
  by code_simp

text \<open>
  Claim C1, as the code has it. Scanning a file whose content is the line
  \<^verbatim>\<open>system_prompt = "Hello {user_input}"\<close> with the built-in rules gives exactly one
  finding: of rule AG-001, with severity critical, on line 1, in column 1. The match of the
  pattern starts at the keyword \<open>system_prompt\<close>, at offset 0, and the column is that
  offset plus 1.
\<close>

theorem prompt_scenario:
  assumes "lookup w path = Some (RegularFile (Inr prompt_line))"
  shows "\<exists>result f. scan_file w (Scanner None) path = Inr result \<and> findings result = [f] \<and>
           Finding.rule_id f = ''AG-001'' \<and> Finding.severity f = CRITICAL \<and>
           line_number f = 1 \<and> column f = 1 \<and>
           finditer AG001_pattern prompt_line = [(0, 34)]"
proof -
  from prompt_check[of path] obtain f where
    "run_rules RULES prompt_line path = [f]"
    "Finding.rule_id f = ''AG-001''" "Finding.severity f = CRITICAL"
    "line_number f = 1" "column f = 1"
    by (auto simp: map_eq_Cons_conv)
  then show ?thesis
    by (simp add: scan_file_readable[OF assms] prompt_match)
qed

theorem prompt_scenario_witness:
  "lookup example_world ''proj/agent.py'' = Some (RegularFile (Inr prompt_line)) \<and>
   (\<exists>result f. scan_file example_world RULES ''proj/agent.py'' = Inr result \<and>
      findings result = [f] \<and> Finding.rule_id f = ''AG-001'' \<and>
      Finding.severity f = CRITICAL \<and> line_number f = 1 \<and> column f = 1)"
proof -
  from example_lookup
  have l: "lookup example_world ''proj/agent.py'' = Some (RegularFile (Inr prompt_line))"
    by simp
  from prompt_scenario[OF l] l show ?thesis by auto
qed

text \<open>
  Claim C1, as it is written, asks for the column of \<open>{user_input\<close>: its index in the
  line, 23, plus 1. The scan gives column 1.
\<close>

theorem prompt_scenario_counterexample:
  "map_sum id (map column \<circ> findings) (scan_file example_world (Scanner None) ''proj/agent.py'')
     \<noteq> Inr [str_find prompt_line ''{user_input'' + 1]"
proof -
  from example_lookup
  have l: "lookup example_world ''proj/agent.py'' = Some (RegularFile (Inr prompt_line))"
    by simp
  have "map column (run_rules RULES prompt_line ''proj/agent.py'') = [1]"
    using prompt_check[of "''proj/agent.py''"] by (auto simp: map_eq_Cons_conv)
  then show ?thesis
    by (simp add: scan_file_readable[OF l] prompt_find)
qed

end
